theory Spec2Isabelle
  imports Main "HOL-Library.Multiset"
begin

section \<open>The multi-field register of lab4.cpp and demo_lab4.cpp\<close>

text \<open>
  The repository holds two near-duplicate programs. Both define a class \<open>MultiField\<close>:
  a vector \<open>vals\<close> of \<open>int\<close> and a vector \<open>locks\<close> of \<open>std::shared_mutex\<close>, one per
  field. The member functions \<open>read\<close> and \<open>write\<close> are the same text in both files;
  \<open>to_string\<close> differs in the bracket characters, the constructor in the optional
  initial value, the loaders in what they do with an unknown command, and the record
  \<open>Op\<close> in the type of its index (\<open>int\<close> in lab4.cpp, \<open>size_t\<close> in demo_lab4.cpp).
  Where the two files differ under one name (the constructor, \<open>to_string\<close>), the model
  prefixes the name with the file it comes from.
\<close>

subsection \<open>Operations and lock events\<close>

datatype OpType = READ | WRITE | STRING

text \<open>\<open>struct Op { OpType type; idx; int value; }\<close>, with the type of \<open>idx\<close> as parameter.\<close>

record 'i Op =
  type :: OpType
  idx :: 'i
  "value" :: int

text \<open>
  What a member function does to the shared state, in program order: it locks and
  unlocks a guard (\<open>std::shared_lock\<close> is the shared mode, \<open>std::unique_lock\<close> the
  exclusive one) and it loads or stores a field.
\<close>

datatype mode = Shared | Exclusive

datatype event =
    Acquire mode nat
  | Release mode nat
  | Load nat
  | Store nat int

subsection \<open>The store\<close>

text \<open>
  \<open>vals\<close> is the vector of fields; \<open>locks\<close> is the length of the vector of guards (the
  state of a guard is who owns it, which lives with the owners, see the section on
  threads).
\<close>

record MultiField =
  vals :: "int list"
  locks :: nat

text \<open>lab4.cpp: \<open>explicit MultiField(size_t m) : vals(m, 0), locks(m) {}\<close>\<close>

definition lab4_MultiField :: "nat \<Rightarrow> MultiField" where
  "lab4_MultiField m = \<lparr>vals = replicate m 0, locks = m\<rparr>"

text \<open>demo_lab4.cpp: \<open>MultiField(size_t m, int init_value = 0) : vals(m, init_value), locks(m)\<close>\<close>

definition demo_MultiField :: "nat \<Rightarrow> int \<Rightarrow> MultiField" where
  "demo_MultiField m init_value = \<lparr>vals = replicate m init_value, locks = m\<rparr>"

text \<open>Both constructors give as many guards as fields; \<open>write\<close> keeps it so.\<close>

definition sized :: "MultiField \<Rightarrow> bool" where
  "sized mf = (locks mf = length (vals mf))"

text \<open>
  \<open>read\<close> returns the value and, beside it, the events of the call. An index at or
  beyond \<open>vals.size()\<close> returns 0 before any lock is constructed.
\<close>

definition read :: "MultiField \<Rightarrow> nat \<Rightarrow> int \<times> event list" where
  "read mf i =
     (if i \<ge> length (vals mf) then (0, [])
      else (vals mf ! i, [Acquire Shared i, Load i, Release Shared i]))"

definition "write" :: "MultiField \<Rightarrow> nat \<Rightarrow> int \<Rightarrow> MultiField \<times> event list" where
  "write mf i v =
     (if i \<ge> length (vals mf) then (mf, [])
      else (mf\<lparr>vals := (vals mf)[i := v]\<rparr>,
            [Acquire Exclusive i, Store i v, Release Exclusive i]))"

subsection \<open>The snapshot\<close>

text \<open>
  \<open>oss << vals[i]\<close> writes an \<open>int\<close> in decimal: the digits of its magnitude, most
  significant first, after a minus sign when it is negative.
\<close>

definition isdigit :: "char \<Rightarrow> bool" where
  "isdigit c = (c \<in> set ''0123456789'')"

fun digits :: "nat \<Rightarrow> string" where
  "digits n =
     (if n < 10 then [''0123456789'' ! n]
      else digits (n div 10) @ [''0123456789'' ! (n mod 10)])"

declare digits.simps [simp del]

definition put_int :: "int \<Rightarrow> string" where
  "put_int v = (if v < 0 then CHR ''-'' # digits (nat (- v)) else digits (nat v))"

text \<open>
  The second loop of \<open>to_string\<close>, the same in both files:
  \<^verbatim>\<open>for (size_t i = 0; i < vals.size(); ++i) { if (i > 0) oss << ", "; oss << vals[i]; }\<close>
  It carries the text written so far and the events so far.
\<close>

function to_string_loop :: "int list \<Rightarrow> nat \<Rightarrow> string \<Rightarrow> event list \<Rightarrow> string \<times> event list" where
  "to_string_loop vs i oss es =
     (if i < length vs
      then to_string_loop vs (i + 1)
             (oss @ (if i > 0 then '', '' else []) @ put_int (vs ! i)) (es @ [Load i])
      else (oss, es))"
  by pat_completeness auto
termination
  by (relation "measure (\<lambda>(vs, i, oss, es). length vs - i)") auto

declare to_string_loop.simps [simp del]

text \<open>
  \<open>to_string\<close> first builds the vector \<open>acquired_locks\<close> of \<open>std::shared_lock\<close>, one per
  element of \<open>locks\<close> in the order of the range-for, then formats, then returns; the
  vector is destroyed after the return value is built (the stream \<open>oss\<close>, declared
  later, goes first). The standard does not fix the order in which a vector destroys
  its elements, so the order is the parameter \<open>destroy\<close>: \<open>destroy n\<close> lists the
  indices of a vector of \<open>n\<close> elements in the order of their destruction.
\<close>

definition lab4_to_string :: "(nat \<Rightarrow> nat list) \<Rightarrow> MultiField \<Rightarrow> string \<times> event list" where
  "lab4_to_string destroy mf =
     (let acquired_locks = map (Acquire Shared) [0..<locks mf];
          (oss, es) = to_string_loop (vals mf) 0 ''{'' acquired_locks
      in (oss @ ''}'', es @ map (Release Shared) (destroy (locks mf))))"

definition demo_to_string :: "(nat \<Rightarrow> nat list) \<Rightarrow> MultiField \<Rightarrow> string \<times> event list" where
  "demo_to_string destroy mf =
     (let acquired = map (Acquire Shared) [0..<locks mf];
          (oss, es) = to_string_loop (vals mf) 0 ''['' acquired
      in (oss @ '']'', es @ map (Release Shared) (destroy (locks mf))))"

text \<open>A destruction order is a permutation of the indices.\<close>

definition destroys_each_once :: "(nat \<Rightarrow> nat list) \<Rightarrow> bool" where
  "destroys_each_once destroy = (\<forall>n. mset (destroy n) = mset [0..<n])"

subsection \<open>The executors\<close>

text \<open>
  \<open>worker\<close> (lab4.cpp) and \<open>execute_ops\<close> (demo_lab4.cpp) return nothing and drop what
  the store returns. To speak about the calls they make, the model returns, beside the
  store and the events, the list of the calls made, each with its arguments as the
  store received them and with the value it returned.
\<close>

datatype call = ReadCall nat int | WriteCall nat int | StringCall string

text \<open>
  lab4.cpp keeps the index as \<open>int\<close> and passes it to a \<open>size_t\<close> parameter: the
  conversion is modulo \<open>2 ^ 64\<close>.
\<close>

definition size_t_of_int :: "int \<Rightarrow> nat" where
  "size_t_of_int i = nat (i mod 2 ^ 64)"

text \<open>The body of the range-for of \<open>worker\<close>: the switch on \<open>op.type\<close>.\<close>

definition worker_body ::
  "(nat \<Rightarrow> nat list) \<Rightarrow> MultiField \<Rightarrow> int Op \<Rightarrow> MultiField \<times> event list \<times> call" where
  "worker_body destroy data opn =
     (case type opn of
        READ \<Rightarrow>
          (let (r, es) = read data (size_t_of_int (idx opn))
           in (data, es, ReadCall (size_t_of_int (idx opn)) r))
      | WRITE \<Rightarrow>
          (let (data', es) = write data (size_t_of_int (idx opn)) (value opn)
           in (data', es, WriteCall (size_t_of_int (idx opn)) (value opn)))
      | STRING \<Rightarrow>
          (let (s, es) = lab4_to_string destroy data
           in (data, es, StringCall s)))"

fun worker ::
  "(nat \<Rightarrow> nat list) \<Rightarrow> MultiField \<Rightarrow> int Op list \<Rightarrow> MultiField \<times> event list \<times> call list" where
  "worker destroy data [] = (data, [], [])"
| "worker destroy data (opn # ops) =
     (let (data1, es1, c) = worker_body destroy data opn;
          (data2, es2, cs) = worker destroy data1 ops
      in (data2, es1 @ es2, c # cs))"

text \<open>The same for \<open>execute_ops\<close>, whose index is a \<open>size_t\<close> already.\<close>

definition execute_ops_body ::
  "(nat \<Rightarrow> nat list) \<Rightarrow> MultiField \<Rightarrow> nat Op \<Rightarrow> MultiField \<times> event list \<times> call" where
  "execute_ops_body destroy mf opn =
     (case type opn of
        READ \<Rightarrow>
          (let (r, es) = read mf (idx opn)
           in (mf, es, ReadCall (idx opn) r))
      | WRITE \<Rightarrow>
          (let (mf', es) = write mf (idx opn) (value opn)
           in (mf', es, WriteCall (idx opn) (value opn)))
      | STRING \<Rightarrow>
          (let (s, es) = demo_to_string destroy mf
           in (mf, es, StringCall s)))"

fun execute_ops ::
  "(nat \<Rightarrow> nat list) \<Rightarrow> MultiField \<Rightarrow> nat Op list \<Rightarrow> MultiField \<times> event list \<times> call list" where
  "execute_ops destroy mf [] = (mf, [], [])"
| "execute_ops destroy mf (opn # ops) =
     (let (mf1, es1, c) = execute_ops_body destroy mf opn;
          (mf2, es2, cs) = execute_ops destroy mf1 ops
      in (mf2, es1 @ es2, c # cs))"

subsection \<open>The workload loaders\<close>

text \<open>
  A \<open>std::ifstream\<close> is the characters not yet read and the fail bit. The end-of-file
  bit needs no field of its own: it is set only when the characters have run out, and
  from then on every extraction fails for lack of characters. Formatted extraction
  (\<open>>>\<close>) does nothing on a stream whose fail bit is set, and otherwise first skips
  white space; if that reaches the end of the file the extraction fails and leaves its
  target as it was. Each extraction below takes the old value of its target and returns
  the new one with the stream.
\<close>

record ifstream =
  rest :: string
  failbit :: bool

definition isspace :: "char \<Rightarrow> bool" where
  "isspace c = (c \<in> set [CHR 0x20, CHR 0x09, CHR 0x0A, CHR 0x0B, CHR 0x0C, CHR 0x0D])"

text \<open>\<open>ifs >> cmd\<close> for a \<open>std::string\<close>: the characters up to the next white space.\<close>

definition get_string :: "string \<Rightarrow> ifstream \<Rightarrow> string \<times> ifstream" where
  "get_string old ifs =
     (if failbit ifs then (old, ifs)
      else let cs = dropWhile isspace (rest ifs)
           in if cs = [] then (old, \<lparr>rest = [], failbit = True\<rparr>)
              else (takeWhile (\<lambda>c. \<not> isspace c) cs,
                    \<lparr>rest = dropWhile (\<lambda>c. \<not> isspace c) cs, failbit = False\<rparr>))"

text \<open>
  Numbers are read in base ten: an optional sign, then digits. No digit is a failure
  that stores 0; a value out of range is a failure that stores the nearest bound. For
  an unsigned target a minus sign negates modulo \<open>2 ^ 64\<close>, as \<open>strtoull\<close> does.
\<close>

definition digit_value :: "char \<Rightarrow> nat" where
  "digit_value c = of_char c - 48"

definition decimal :: "string \<Rightarrow> nat" where
  "decimal ds = foldl (\<lambda>n c. 10 * n + digit_value c) 0 ds"

definition unsigned_body :: "string \<Rightarrow> string" where
  "unsigned_body cs = (if hd cs = CHR ''-'' \<or> hd cs = CHR ''+'' then tl cs else cs)"

text \<open>\<open>ifs >> idx\<close> for a \<open>size_t\<close> (64 bits).\<close>

definition get_size_t :: "nat \<Rightarrow> ifstream \<Rightarrow> nat \<times> ifstream" where
  "get_size_t old ifs =
     (if failbit ifs then (old, ifs)
      else let cs = dropWhile isspace (rest ifs)
           in if cs = [] then (old, \<lparr>rest = [], failbit = True\<rparr>)
              else let ds = takeWhile isdigit (unsigned_body cs);
                       after = dropWhile isdigit (unsigned_body cs);
                       n = decimal ds
                   in if ds = [] then (0, \<lparr>rest = after, failbit = True\<rparr>)
                      else if 2 ^ 64 \<le> n then (2 ^ 64 - 1, \<lparr>rest = after, failbit = True\<rparr>)
                      else (if hd cs = CHR ''-'' then (2 ^ 64 - n) mod 2 ^ 64 else n,
                            \<lparr>rest = after, failbit = False\<rparr>))"

text \<open>\<open>ifs >> val\<close> for an \<open>int\<close> (32 bits).\<close>

definition get_int :: "int \<Rightarrow> ifstream \<Rightarrow> int \<times> ifstream" where
  "get_int old ifs =
     (if failbit ifs then (old, ifs)
      else let cs = dropWhile isspace (rest ifs)
           in if cs = [] then (old, \<lparr>rest = [], failbit = True\<rparr>)
              else let ds = takeWhile isdigit (unsigned_body cs);
                       after = dropWhile isdigit (unsigned_body cs);
                       v = (if hd cs = CHR ''-'' then - int (decimal ds) else int (decimal ds))
                   in if ds = [] then (0, \<lparr>rest = after, failbit = True\<rparr>)
                      else if 2 ^ 31 \<le> v then (2 ^ 31 - 1, \<lparr>rest = after, failbit = True\<rparr>)
                      else if v < - (2 ^ 31) then (- (2 ^ 31), \<lparr>rest = after, failbit = True\<rparr>)
                      else (v, \<lparr>rest = after, failbit = False\<rparr>))"

text \<open>
  \<open>std::getline(ifs, rest)\<close>, the line itself dropped: the characters through the next
  line feed. It skips no white space, and fails when nothing is left.
\<close>

definition getline :: "ifstream \<Rightarrow> ifstream" where
  "getline ifs =
     (if failbit ifs then ifs
      else if rest ifs = [] then \<lparr>rest = [], failbit = True\<rparr>
      else \<lparr>rest = drop 1 (dropWhile (\<lambda>c. c \<noteq> CHR 0x0A) (rest ifs)), failbit = False\<rparr>)"

lemma get_string_shorter:
  "\<not> failbit (snd (get_string old ifs)) \<Longrightarrow>
     length (rest (snd (get_string old ifs))) < length (rest ifs)"
proof -
  assume ok: "\<not> failbit (snd (get_string old ifs))"
  let ?cs = "dropWhile isspace (rest ifs)"
  from ok have nf: "\<not> failbit ifs" and ne: "?cs \<noteq> []"
    by (auto simp: get_string_def Let_def split: if_splits)
  from ne have "\<not> isspace (hd ?cs)" by (rule hd_dropWhile)
  with ne have "dropWhile (\<lambda>c. \<not> isspace c) ?cs = dropWhile (\<lambda>c. \<not> isspace c) (tl ?cs)"
    by (cases ?cs) auto
  then have "length (dropWhile (\<lambda>c. \<not> isspace c) ?cs) \<le> length (tl ?cs)"
    using length_dropWhile_le [of "\<lambda>c. \<not> isspace c" "tl ?cs"] by simp
  also have "\<dots> < length ?cs" using ne by simp
  also have "\<dots> \<le> length (rest ifs)" by (rule length_dropWhile_le)
  finally have "length (dropWhile (\<lambda>c. \<not> isspace c) ?cs) < length (rest ifs)" .
  moreover have "rest (snd (get_string old ifs)) = dropWhile (\<lambda>c. \<not> isspace c) ?cs"
    unfolding get_string_def Let_def using nf ne by (simp only: if_False snd_conv ifstream.simps)
  ultimately show ?thesis by simp
qed

lemma unsigned_body_le: "length (unsigned_body cs) \<le> length cs"
  by (simp add: unsigned_body_def)

lemma digits_rest_le:
  "length (dropWhile isdigit (unsigned_body (dropWhile isspace cs))) \<le> length cs"
  by (meson length_dropWhile_le unsigned_body_le order_trans)

lemma get_size_t_le: "length (rest (snd (get_size_t old ifs))) \<le> length (rest ifs)"
  using digits_rest_le [of "rest ifs"] by (simp add: get_size_t_def Let_def)

lemma get_int_le: "length (rest (snd (get_int old ifs))) \<le> length (rest ifs)"
  using digits_rest_le [of "rest ifs"] by (simp add: get_int_def Let_def)

lemma getline_le: "length (rest (getline ifs)) \<le> length (rest ifs)"
proof -
  have "length (drop 1 (dropWhile (\<lambda>c. c \<noteq> CHR 0x0A) (rest ifs))) \<le> length (rest ifs)"
    using length_dropWhile_le [of "\<lambda>c. c \<noteq> CHR 0x0A" "rest ifs"] by (simp only: length_drop)
  then show ?thesis by (simp add: getline_def del: length_drop drop_Suc_Cons drop_0 One_nat_def)
qed

text \<open>
  The loop of \<open>load_ops_from_file\<close> (demo_lab4.cpp). \<open>idx\<close> and \<open>val\<close> are declared
  without an initial value in the loop body; what they hold when an extraction leaves
  them untouched is indeterminate, and is given by the parameters \<open>idx0\<close> and \<open>val0\<close>.
\<close>

function load_ops_from_file_loop ::
  "nat \<Rightarrow> int \<Rightarrow> string \<Rightarrow> nat Op list \<Rightarrow> ifstream \<Rightarrow> nat Op list" where
  "load_ops_from_file_loop idx0 val0 cmd ops ifs =
     (let c = get_string cmd ifs in
      if failbit (snd c) then ops
      else if fst c = ''read'' then
        (let i = get_size_t idx0 (snd c)
         in load_ops_from_file_loop idx0 val0 (fst c)
              (ops @ [\<lparr>type = READ, idx = fst i, value = 0\<rparr>]) (snd i))
      else if fst c = ''write'' then
        (let i = get_size_t idx0 (snd c); v = get_int val0 (snd i)
         in load_ops_from_file_loop idx0 val0 (fst c)
              (ops @ [\<lparr>type = WRITE, idx = fst i, value = fst v\<rparr>]) (snd v))
      else if fst c = ''string'' then
        load_ops_from_file_loop idx0 val0 (fst c)
          (ops @ [\<lparr>type = STRING, idx = 0, value = 0\<rparr>]) (snd c)
      else load_ops_from_file_loop idx0 val0 (fst c) ops (getline (snd c)))"
  by pat_completeness auto
termination
proof (relation "measure (\<lambda>(idx0, val0, cmd, ops, ifs). length (rest ifs))", goal_cases)
  case 1
  show ?case by simp
next
  case (2 idx0 val0 cmd ops ifs c i)
  then show ?case
    using get_string_shorter [of cmd ifs] get_size_t_le [of idx0 "snd c"] by simp
next
  case (3 idx0 val0 cmd ops ifs c i v)
  then show ?case
    using get_string_shorter [of cmd ifs] get_size_t_le [of idx0 "snd c"]
      get_int_le [of val0 "snd i"] by simp
next
  case (4 idx0 val0 cmd ops ifs c)
  then show ?case using get_string_shorter [of cmd ifs] by simp
next
  case (5 idx0 val0 cmd ops ifs c)
  then show ?case
    using get_string_shorter [of cmd ifs] getline_le [of "snd c"] by simp
qed

declare load_ops_from_file_loop.simps [simp del]

text \<open>
  \<open>load_ops_from_file\<close>: a file that cannot be opened (\<open>None\<close>) gives the empty vector
  (the message on \<open>std::cerr\<close> is not modelled).
\<close>

definition load_ops_from_file :: "nat \<Rightarrow> int \<Rightarrow> string option \<Rightarrow> nat Op list" where
  "load_ops_from_file idx0 val0 file =
     (case file of
        None \<Rightarrow> []
      | Some text \<Rightarrow> load_ops_from_file_loop idx0 val0 [] [] \<lparr>rest = text, failbit = False\<rparr>)"

text \<open>
  The loop of \<open>load_ops\<close> (lab4.cpp): the index is an \<open>int\<close>, and there is no branch for
  a command that is none of the three.
\<close>

function load_ops_loop ::
  "int \<Rightarrow> int \<Rightarrow> string \<Rightarrow> int Op list \<Rightarrow> ifstream \<Rightarrow> int Op list" where
  "load_ops_loop idx0 val0 cmd ops ifs =
     (let c = get_string cmd ifs in
      if failbit (snd c) then ops
      else if fst c = ''read'' then
        (let i = get_int idx0 (snd c)
         in load_ops_loop idx0 val0 (fst c)
              (ops @ [\<lparr>type = READ, idx = fst i, value = 0\<rparr>]) (snd i))
      else if fst c = ''write'' then
        (let i = get_int idx0 (snd c); v = get_int val0 (snd i)
         in load_ops_loop idx0 val0 (fst c)
              (ops @ [\<lparr>type = WRITE, idx = fst i, value = fst v\<rparr>]) (snd v))
      else if fst c = ''string'' then
        load_ops_loop idx0 val0 (fst c)
          (ops @ [\<lparr>type = STRING, idx = 0, value = 0\<rparr>]) (snd c)
      else load_ops_loop idx0 val0 (fst c) ops (snd c))"
  by pat_completeness auto
termination
proof (relation "measure (\<lambda>(idx0, val0, cmd, ops, ifs). length (rest ifs))", goal_cases)
  case 1
  show ?case by simp
next
  case (2 idx0 val0 cmd ops ifs c i)
  then show ?case
    using get_string_shorter [of cmd ifs] get_int_le [of idx0 "snd c"] by simp
next
  case (3 idx0 val0 cmd ops ifs c i v)
  then show ?case
    using get_string_shorter [of cmd ifs] get_int_le [of idx0 "snd c"]
      get_int_le [of val0 "snd i"] by simp
next
  case (4 idx0 val0 cmd ops ifs c)
  then show ?case using get_string_shorter [of cmd ifs] by simp
next
  case (5 idx0 val0 cmd ops ifs c)
  then show ?case using get_string_shorter [of cmd ifs] by simp
qed

declare load_ops_loop.simps [simp del]

definition load_ops :: "int \<Rightarrow> int \<Rightarrow> string option \<Rightarrow> int Op list" where
  "load_ops idx0 val0 file =
     (case file of
        None \<Rightarrow> []
      | Some text \<Rightarrow> load_ops_loop idx0 val0 [] [] \<lparr>rest = text, failbit = False\<rparr>)"

subsection \<open>Threads\<close>

text \<open>
  The drivers (\<open>run_test\<close> in lab4.cpp, \<open>run_test_case\<close> in demo_lab4.cpp) start one
  \<open>std::thread\<close> per operation stream, all on the same store, and join them. A thread
  is modelled by the guards it owns (its live \<open>shared_lock\<close> and \<open>unique_lock\<close>
  objects) and the events it has still to perform. The state of a
  \<open>std::shared_mutex\<close> is who owns it: \<open>lock_shared\<close> returns when no thread owns the
  guard exclusively, \<open>lock\<close> when no thread owns it in either mode; until then the
  calling thread cannot make its step. Unlocking, loading and storing never wait.
\<close>

record thread =
  owned :: "(nat \<times> mode) list"
  pending :: "event list"

record system =
  shared_vals :: "int list"
  threads :: "thread list"

text \<open>
  The guards a thread owns, with the mode it owns each in: an acquisition adds one, a
  release removes it, loads and stores change nothing.
\<close>

fun owned_step :: "(nat \<times> mode) list \<Rightarrow> event \<Rightarrow> (nat \<times> mode) list" where
  "owned_step h (Acquire m k) = (k, m) # h"
| "owned_step h (Release m k) = remove1 (k, m) h"
| "owned_step h (Load k) = h"
| "owned_step h (Store k v) = h"

definition grantable :: "thread list \<Rightarrow> mode \<Rightarrow> nat \<Rightarrow> bool" where
  "grantable ts m k =
     (case m of
        Shared \<Rightarrow> list_all (\<lambda>t. (k, Exclusive) \<notin> set (owned t)) ts
      | Exclusive \<Rightarrow>
          list_all (\<lambda>t. (k, Shared) \<notin> set (owned t) \<and> (k, Exclusive) \<notin> set (owned t)) ts)"

fun enabled :: "thread list \<Rightarrow> event \<Rightarrow> bool" where
  "enabled ts (Acquire m k) = grantable ts m k"
| "enabled ts (Release m k) = True"
| "enabled ts (Load k) = True"
| "enabled ts (Store k v) = True"

fun store_step :: "int list \<Rightarrow> event \<Rightarrow> int list" where
  "store_step fs (Store k v) = fs[k := v]"
| "store_step fs (Acquire m k) = fs"
| "store_step fs (Release m k) = fs"
| "store_step fs (Load k) = fs"

text \<open>
  One step of thread \<open>t\<close>, chosen by the scheduler: the first of its pending events, if
  there is one and it need not wait.
\<close>

definition sched_step :: "system \<Rightarrow> nat \<Rightarrow> system option" where
  "sched_step s t =
     (if t < length (threads s) then
        (case pending (threads s ! t) of
           [] \<Rightarrow> None
         | e # es \<Rightarrow>
             if enabled (threads s) e
             then Some \<lparr>shared_vals = store_step (shared_vals s) e,
                        threads = (threads s)
                          [t := \<lparr>owned = owned_step (owned (threads s ! t)) e, pending = es\<rparr>]\<rparr>
             else None)
      else None)"

text \<open>An execution: the scheduler's choices, one thread index per step.\<close>

fun run :: "system \<Rightarrow> nat list \<Rightarrow> system option" where
  "run s [] = Some s"
| "run s (t # sched) = (case sched_step s t of None \<Rightarrow> None | Some s' \<Rightarrow> run s' sched)"

definition launch :: "MultiField \<Rightarrow> event list list \<Rightarrow> system" where
  "launch mf progs =
     \<lparr>shared_vals = vals mf, threads = map (\<lambda>p. \<lparr>owned = [], pending = p\<rparr>) progs\<rparr>"

text \<open>
  lab4.cpp, \<open>run_test\<close>, between the loading of the files and the timing report:
  \<open>workers.emplace_back(worker, std::ref(data), std::cref(thread_ops[i]))\<close> for every
  stream. The events of a thread are those of \<open>worker\<close> on its stream; they depend on the
  number of fields and guards only, which no call changes (lemmas \<open>worker_events_sized\<close>
  and \<open>execute_ops_events_sized\<close>).
\<close>

definition run_test :: "(nat \<Rightarrow> nat list) \<Rightarrow> MultiField \<Rightarrow> int Op list list \<Rightarrow> system" where
  "run_test destroy data thread_ops =
     launch data (map (\<lambda>ops. fst (snd (worker destroy data ops))) thread_ops)"

text \<open>
  demo_lab4.cpp, \<open>run_test_case\<close>: \<open>MultiField mf(m, 0)\<close>, then one thread per stream
  running \<open>execute_ops(mf, ops)\<close>.
\<close>

definition run_test_case :: "(nat \<Rightarrow> nat list) \<Rightarrow> nat \<Rightarrow> nat Op list list \<Rightarrow> system" where
  "run_test_case destroy m all_ops =
     launch (demo_MultiField m 0)
       (map (\<lambda>ops. fst (snd (execute_ops destroy (demo_MultiField m 0) ops))) all_ops)"

definition finished :: "system \<Rightarrow> bool" where
  "finished s = list_all (\<lambda>t. pending t = []) (threads s)"

definition remaining :: "system \<Rightarrow> nat" where
  "remaining s = sum_list (map (\<lambda>t. length (pending t)) (threads s))"

subsection \<open>Reference notions for the properties\<close>

text \<open>Texts separated by a comma and a space.\<close>

fun comma_separated :: "string list \<Rightarrow> string" where
  "comma_separated [] = []"
| "comma_separated [x] = x"
| "comma_separated (x # y # ys) = x @ '', '' @ comma_separated (y # ys)"

text \<open>
  The operations of the specification's data model, and the one each \<open>Op\<close> record
  stands for.
\<close>

datatype operation = Read nat | Write nat int | Snapshot

definition lab4_operation :: "int Op \<Rightarrow> operation" where
  "lab4_operation opn =
     (case type opn of
        READ \<Rightarrow> Read (size_t_of_int (idx opn))
      | WRITE \<Rightarrow> Write (size_t_of_int (idx opn)) (value opn)
      | STRING \<Rightarrow> Snapshot)"

definition demo_operation :: "nat Op \<Rightarrow> operation" where
  "demo_operation opn =
     (case type opn of
        READ \<Rightarrow> Read (idx opn)
      | WRITE \<Rightarrow> Write (idx opn) (value opn)
      | STRING \<Rightarrow> Snapshot)"

text \<open>
  The executor in the specification's words: the stream is consumed front to back,
  each operation is one call of the store, made on the store as the calls before it
  left it, and its events follow theirs. The snapshot function is a parameter.
\<close>

fun spec_run ::
  "(MultiField \<Rightarrow> string \<times> event list) \<Rightarrow> MultiField \<Rightarrow> operation list
     \<Rightarrow> MultiField \<times> event list \<times> call list" where
  "spec_run snapshot store [] = (store, [], [])"
| "spec_run snapshot store (Read i # stream) =
     (let (v, es) = read store i;
          (store', es', cs) = spec_run snapshot store stream
      in (store', es @ es', ReadCall i v # cs))"
| "spec_run snapshot store (Write i v # stream) =
     (let (store1, es) = write store i v;
          (store', es', cs) = spec_run snapshot store1 stream
      in (store', es @ es', WriteCall i v # cs))"
| "spec_run snapshot store (Snapshot # stream) =
     (let (s, es) = snapshot store;
          (store', es', cs) = spec_run snapshot store stream
      in (store', es @ es', StringCall s # cs))"

text \<open>What one operation may do to the fields: an in-range write sets its field.\<close>

fun spec_effect :: "int list \<Rightarrow> operation \<Rightarrow> int list" where
  "spec_effect fs (Write i v) = (if i < length fs then fs[i := v] else fs)"
| "spec_effect fs (Read i) = fs"
| "spec_effect fs Snapshot = fs"

text \<open>The guards owned after a list of events, from those owned before it.\<close>

definition held_after :: "(nat \<times> mode) list \<Rightarrow> event list \<Rightarrow> (nat \<times> mode) list" where
  "held_after h es = foldl owned_step h es"

text \<open>The largest number of guards owned at one time while the events run.\<close>

fun peak :: "(nat \<times> mode) list \<Rightarrow> event list \<Rightarrow> nat" where
  "peak h [] = length h"
| "peak h (e # es) = max (length h) (peak (owned_step h e) es)"

text \<open>
  The locking discipline of a thread that owns \<open>h\<close> and has \<open>es\<close> to perform: it
  acquires a guard only when its index is above every guard it owns, releases only
  what it owns, loads a field only while it owns the field's guard, stores only while
  it owns the guard exclusively, and owns nothing when it is done.
\<close>

fun permitted :: "(nat \<times> mode) list \<Rightarrow> event \<Rightarrow> bool" where
  "permitted h (Acquire m k) = list_all (\<lambda>x. fst x < k) h"
| "permitted h (Release m k) = ((k, m) \<in> set h)"
| "permitted h (Load k) = (k \<in> fst ` set h)"
| "permitted h (Store k v) = ((k, Exclusive) \<in> set h)"

fun disciplined :: "(nat \<times> mode) list \<Rightarrow> event list \<Rightarrow> bool" where
  "disciplined h [] = (h = [])"
| "disciplined h (e # es) = (permitted h e \<and> disciplined (owned_step h e) es)"

text \<open>
  For the proof that threads never block each other for good: the guard a thread is
  about to acquire, and the systems whose threads all keep the discipline.
\<close>

definition wants :: "thread \<Rightarrow> nat" where
  "wants t = (case pending t of Acquire m k # es \<Rightarrow> k | _ \<Rightarrow> 0)"

definition orderly :: "system \<Rightarrow> bool" where
  "orderly s = (\<forall>t \<in> set (threads s). disciplined (owned t) (pending t))"

text \<open>
  A \<open>std::shared_mutex\<close> may keep a thread waiting in more situations than \<open>enabled\<close>
  says, for instance keep new readers out while a writer waits. An acquisition is
  unopposed when no thread owns the guard and, if it is a shared one, no thread is
  waiting to own the guard exclusively: no policy has a reason to delay it.
\<close>

definition waits_exclusive :: "thread \<Rightarrow> nat \<Rightarrow> bool" where
  "waits_exclusive t k = (case pending t of [] \<Rightarrow> False | e # es \<Rightarrow> e = Acquire Exclusive k)"

fun unopposed :: "thread list \<Rightarrow> event \<Rightarrow> bool" where
  "unopposed ts (Acquire m k) =
     (list_all (\<lambda>t. (k, Shared) \<notin> set (owned t) \<and> (k, Exclusive) \<notin> set (owned t)) ts \<and>
      (m = Exclusive \<or> list_all (\<lambda>t. \<not> waits_exclusive t k) ts))"
| "unopposed ts (Release m k) = True"
| "unopposed ts (Load k) = True"
| "unopposed ts (Store k v) = True"

text \<open>
  Workload files as the generators write them, one command per line, with lines that
  start with a word that is no command in between: the text of a line, the operations
  it stands for, and the bounds that make its numbers fit their types.
\<close>

datatype line = ReadLine nat | WriteLine nat int | StringLine | OtherLine string string

fun line_text :: "line \<Rightarrow> string" where
  "line_text (ReadLine i) = ''read '' @ digits i"
| "line_text (WriteLine i v) = ''write '' @ digits i @ '' '' @ put_int v"
| "line_text StringLine = ''string''"
| "line_text (OtherLine tok tail) = tok @ tail"

definition file_text :: "line list \<Rightarrow> string" where
  "file_text ls = concat (map (\<lambda>l. line_text l @ [CHR 0x0A]) ls)"

fun line_ops :: "line \<Rightarrow> nat Op list" where
  "line_ops (ReadLine i) = [\<lparr>type = READ, idx = i, value = 0\<rparr>]"
| "line_ops (WriteLine i v) = [\<lparr>type = WRITE, idx = i, value = v\<rparr>]"
| "line_ops StringLine = [\<lparr>type = STRING, idx = 0, value = 0\<rparr>]"
| "line_ops (OtherLine tok tail) = []"

fun well_formed :: "line \<Rightarrow> bool" where
  "well_formed (ReadLine i) = (i < 2 ^ 64)"
| "well_formed (WriteLine i v) = (i < 2 ^ 64 \<and> - (2 ^ 31) \<le> v \<and> v < 2 ^ 31)"
| "well_formed StringLine = True"
| "well_formed (OtherLine tok tail) =
     (tok \<noteq> [] \<and> list_all (\<lambda>c. \<not> isspace c) tok \<and>
      tok \<noteq> ''read'' \<and> tok \<noteq> ''write'' \<and> tok \<noteq> ''string'' \<and>
      CHR 0x0A \<notin> set tail \<and> (tail = [] \<or> isspace (hd tail)))"

section \<open>Single-field operations\<close>

lemma sized_lab4_MultiField: "sized (lab4_MultiField m)"
  by (simp add: sized_def lab4_MultiField_def)

lemma sized_demo_MultiField: "sized (demo_MultiField m v0)"
  by (simp add: sized_def demo_MultiField_def)

lemma sized_write: "sized mf \<Longrightarrow> sized (fst (write mf i v))"
  by (simp add: sized_def write_def)

text \<open>
  C3. For an index at or beyond the size of the store, \<open>read\<close> returns 0, takes no lock
  (its event list is empty) and has no store to change; \<open>write\<close> returns the store as
  it was, every field included, and takes no lock either. Neither is an error: both
  are ordinary results.
\<close>

theorem out_of_range_noop:
  "length (vals mf) \<le> i \<Longrightarrow>
     read mf i = (0, []) \<and> write mf i v = (mf, []) \<and> vals (fst (write mf i v)) = vals mf"
  by (simp add: read_def write_def)

theorem out_of_range_noop_witness:
  "length (vals (lab4_MultiField 3)) \<le> 8 \<and>
   read (lab4_MultiField 3) 8 = (0, []) \<and>
   write (lab4_MultiField 3) 8 7 = (lab4_MultiField 3, []) \<and>
   vals (fst (write (lab4_MultiField 3) 8 7)) = [0, 0, 0]"
  using out_of_range_noop [of "lab4_MultiField 3" 8 7]
  by (simp add: lab4_MultiField_def numeral_3_eq_3)

text \<open>
  C5. For an index inside the store, \<open>write\<close> puts the value into that field, leaves
  every other field as it was, and changes neither the number of fields nor the number
  of guards.
\<close>

theorem write_frame:
  "i < length (vals mf) \<Longrightarrow>
     vals (fst (write mf i v)) ! i = v \<and>
     (\<forall>j. j \<noteq> i \<longrightarrow> vals (fst (write mf i v)) ! j = vals mf ! j) \<and>
     length (vals (fst (write mf i v))) = length (vals mf) \<and>
     locks (fst (write mf i v)) = locks mf"
  by (simp add: write_def)

theorem write_frame_witness:
  "1 < length (vals (lab4_MultiField 3)) \<and>
   vals (fst (write (lab4_MultiField 3) 1 9)) ! 1 = 9 \<and>
   vals (fst (write (lab4_MultiField 3) 1 9)) ! 0 = vals (lab4_MultiField 3) ! 0 \<and>
   vals (fst (write (lab4_MultiField 3) 1 9)) ! 2 = vals (lab4_MultiField 3) ! 2 \<and>
   length (vals (fst (write (lab4_MultiField 3) 1 9))) = 3 \<and>
   locks (fst (write (lab4_MultiField 3) 1 9)) = 3"
  using write_frame [of 1 "lab4_MultiField 3" 9]
  by (simp add: lab4_MultiField_def)

lemma writes_frame:
  "length (vals (foldl (\<lambda>s w. fst (write s (fst w) (snd w))) s ws)) = length (vals s) \<and>
   (i \<notin> fst ` set ws \<longrightarrow>
      vals (foldl (\<lambda>s w. fst (write s (fst w) (snd w))) s ws) ! i = vals s ! i)"
proof (induction ws arbitrary: s)
  case Nil
  show ?case by simp
next
  case (Cons w ws)
  have "length (vals (fst (write s (fst w) (snd w)))) = length (vals s)"
    by (simp add: write_def)
  moreover have "i \<noteq> fst w \<Longrightarrow> vals (fst (write s (fst w) (snd w))) ! i = vals s ! i"
    by (simp add: write_def)
  ultimately show ?case using Cons [of "fst (write s (fst w) (snd w))"] by auto
qed

text \<open>
  C10. Take a store built by the constructor of demo_lab4.cpp with \<open>m\<close> fields and
  initial value \<open>init_value\<close>, and write to it any number of times. Every index below
  \<open>m\<close> that no write named still reads \<open>init_value\<close>, and every index from \<open>m\<close> on
  reads 0; so when \<open>init_value\<close> is not 0 the two differ.
\<close>

theorem read_initial_value:
  assumes "mf = foldl (\<lambda>s w. fst (write s (fst w) (snd w))) (demo_MultiField m init_value) ws"
  shows "(\<forall>i < m. i \<notin> fst ` set ws \<longrightarrow> fst (read mf i) = init_value) \<and>
         (\<forall>j \<ge> m. fst (read mf j) = 0) \<and>
         (init_value \<noteq> 0 \<longrightarrow> (\<forall>i < m. \<forall>j \<ge> m. i \<notin> fst ` set ws \<longrightarrow>
             fst (read mf i) \<noteq> fst (read mf j)))"
proof -
  have len: "length (vals mf) = m"
    unfolding assms using writes_frame [of "demo_MultiField m init_value" ws]
    by (simp add: demo_MultiField_def)
  have keep: "vals mf ! i = init_value" if "i < m" "i \<notin> fst ` set ws" for i
    unfolding assms using writes_frame [of "demo_MultiField m init_value" ws i] that
    by (simp add: demo_MultiField_def)
  show ?thesis using len keep by (simp add: read_def)
qed

theorem read_initial_value_witness:
  "fst (read (foldl (\<lambda>s w. fst (write s (fst w) (snd w))) (demo_MultiField 3 7) [(0, 4)]) 2) = 7 \<and>
   fst (read (foldl (\<lambda>s w. fst (write s (fst w) (snd w))) (demo_MultiField 3 7) [(0, 4)]) 3) = 0 \<and>
   fst (read (foldl (\<lambda>s w. fst (write s (fst w) (snd w))) (demo_MultiField 3 7) [(0, 4)]) 0) = 4"
proof -
  have w: "fst (read (foldl (\<lambda>s w. fst (write s (fst w) (snd w))) (demo_MultiField 3 7) [(0, 4)]) 0) = 4"
    by (simp add: read_def write_def demo_MultiField_def)
  from read_initial_value [OF refl, where m = 3 and init_value = 7 and ws = "[(0, 4)]"] w
  show ?thesis by simp
qed

section \<open>The text of the snapshot\<close>

lemma digits_isdigit: "c \<in> set (digits n) \<Longrightarrow> isdigit c"
proof (induction n arbitrary: c rule: digits.induct)
  case (1 n)
  have d: "isdigit (''0123456789'' ! k)" if "k < 10" for k :: nat
    unfolding isdigit_def by (rule nth_mem) (use that in simp)
  show ?case
  proof (cases "n < 10")
    case True
    then show ?thesis using d[of n] "1.prems" by (subst (asm) digits.simps) simp
  next
    case False
    then show ?thesis using 1 d[of "n mod 10"] by (subst (asm) digits.simps) auto
  qed
qed

lemma isdigit_plain: "isdigit c \<Longrightarrow> c \<noteq> CHR 0x0A"
  by (auto simp: isdigit_def)

lemma put_int_plain: "c \<in> set (put_int v) \<Longrightarrow> c \<noteq> CHR 0x0A"
  using isdigit_plain digits_isdigit
  by (fastforce simp: put_int_def split: if_splits)

lemma comma_separated_plain:
  "(\<And>x c. x \<in> set xs \<Longrightarrow> c \<in> set x \<Longrightarrow> c \<noteq> CHR 0x0A) \<Longrightarrow>
     c \<in> set (comma_separated xs) \<Longrightarrow> c \<noteq> CHR 0x0A"
  by (induction xs rule: comma_separated.induct) auto

lemma loop_text:
  "i < length vs \<Longrightarrow> fst (to_string_loop vs i oss es) =
     oss @ (if i > 0 then '', '' else []) @ comma_separated (map put_int (drop i vs))"
proof (induction vs i oss es rule: to_string_loop.induct)
  case (1 vs i oss es)
  show ?case
  proof (cases "Suc i < length vs")
    case True
    then have "drop i vs = vs ! i # vs ! Suc i # drop (Suc (Suc i)) vs"
      by (metis "1.prems" Cons_nth_drop_Suc)
    moreover have "drop (Suc i) vs = vs ! Suc i # drop (Suc (Suc i)) vs"
      using True by (metis Cons_nth_drop_Suc)
    ultimately show ?thesis using 1 True
      by (subst to_string_loop.simps) simp
  next
    case False
    with 1 have "drop i vs = [vs ! i]"
      by (metis Cons_nth_drop_Suc drop_all not_less)
    then show ?thesis using 1 False
      by (subst to_string_loop.simps) (simp add: to_string_loop.simps [of vs "Suc i"])
  qed
qed

lemma loop_text_0:
  "fst (to_string_loop vs 0 oss es) = oss @ comma_separated (map put_int vs)"
proof (cases vs)
  case Nil
  then show ?thesis by (simp add: to_string_loop.simps)
next
  case (Cons v ws)
  then show ?thesis using loop_text [of 0 vs oss es] by simp
qed

lemma loop_events:
  "snd (to_string_loop vs i oss es) = es @ map Load [i..<length vs]"
proof (induction vs i oss es rule: to_string_loop.induct)
  case (1 vs i oss es)
  show ?case
  proof (cases "i < length vs")
    case True
    then show ?thesis using 1
      by (subst to_string_loop.simps) (simp add: upt_conv_Cons)
  next
    case False
    then show ?thesis by (subst to_string_loop.simps) simp
  qed
qed

lemma demo_to_string_text:
  "fst (demo_to_string destroy mf) = ''['' @ comma_separated (map put_int (vals mf)) @ '']''"
  by (simp add: demo_to_string_def split_beta loop_text_0)

lemma lab4_to_string_text:
  "fst (lab4_to_string destroy mf) = ''{'' @ comma_separated (map put_int (vals mf)) @ ''}''"
  by (simp add: lab4_to_string_def split_beta loop_text_0)

lemma values_plain: "CHR 0x0A \<notin> set (comma_separated (map put_int vs))"
  using comma_separated_plain [of "map put_int vs" "CHR 0x0A"] put_int_plain
  by auto

text \<open>
  C4. The text returned by the snapshot is an opening bracket, the decimal values of
  all fields in index order separated by a comma and a space, and the closing bracket:
  square brackets in demo_lab4.cpp, curly ones in lab4.cpp. It holds no line feed, so
  it is one line. A store of four fields holding 3, 0, 17 and 0 gives
  \<open>[3, 0, 17, 0]\<close>.
\<close>

theorem snapshot_text:
  "fst (demo_to_string destroy mf) = ''['' @ comma_separated (map put_int (vals mf)) @ '']'' \<and>
   fst (lab4_to_string destroy mf) = ''{'' @ comma_separated (map put_int (vals mf)) @ ''}'' \<and>
   CHR 0x0A \<notin> set (fst (demo_to_string destroy mf)) \<and>
   CHR 0x0A \<notin> set (fst (lab4_to_string destroy mf)) \<and>
   fst (demo_to_string destroy \<lparr>vals = [3, 0, 17, 0], locks = 4\<rparr>) = ''[3, 0, 17, 0]''"
proof -
  have ex: "fst (demo_to_string destroy \<lparr>vals = [3, 0, 17, 0], locks = 4\<rparr>) = ''[3, 0, 17, 0]''"
    by (simp add: demo_to_string_text put_int_def digits.simps)
  have plain: "CHR 0x0A \<notin> set (fst (demo_to_string destroy mf))"
    "CHR 0x0A \<notin> set (fst (lab4_to_string destroy mf))"
    using values_plain [of "vals mf"]
    by (simp_all add: demo_to_string_text lab4_to_string_text)
  show ?thesis
    using ex plain demo_to_string_text lab4_to_string_text by blast
qed

section \<open>The executors\<close>

lemma to_string_events:
  "snd (demo_to_string destroy mf) =
     map (Acquire Shared) [0..<locks mf] @ map Load [0..<length (vals mf)] @
     map (Release Shared) (destroy (locks mf))"
  "snd (lab4_to_string destroy mf) =
     map (Acquire Shared) [0..<locks mf] @ map Load [0..<length (vals mf)] @
     map (Release Shared) (destroy (locks mf))"
  by (simp_all add: demo_to_string_def lab4_to_string_def split_beta loop_events Let_def)

lemma worker_refines:
  "worker destroy mf ops = spec_run (lab4_to_string destroy) mf (map lab4_operation ops)"
proof (induction ops arbitrary: mf)
  case Nil
  show ?case by simp
next
  case (Cons opn ops)
  show ?case
    by (cases "type opn")
       (simp_all add: Cons worker_body_def lab4_operation_def split_beta Let_def)
qed

lemma execute_ops_refines:
  "execute_ops destroy mf ops = spec_run (demo_to_string destroy) mf (map demo_operation ops)"
proof (induction ops arbitrary: mf)
  case Nil
  show ?case by simp
next
  case (Cons opn ops)
  show ?case
    by (cases "type opn")
       (simp_all add: Cons execute_ops_body_def demo_operation_def split_beta Let_def)
qed

lemma spec_run_calls: "length (snd (snd (spec_run snap st stream))) = length stream"
proof (induction stream arbitrary: st)
  case Nil
  show ?case by simp
next
  case (Cons x stream)
  show ?case by (cases x) (simp_all add: Cons split_beta Let_def)
qed

lemma write_vals: "vals (fst (write st i v)) = spec_effect (vals st) (Write i v)"
  by (simp add: write_def)

lemma write_locks: "locks (fst (write st i v)) = locks st"
  by (simp add: write_def)

lemma spec_run_vals:
  "vals (fst (spec_run snap st stream)) = foldl spec_effect (vals st) stream"
proof (induction stream arbitrary: st)
  case Nil
  show ?case by simp
next
  case (Cons x stream)
  show ?case
    by (cases x) (simp_all add: Cons split_beta Let_def write_vals del: spec_effect.simps(1))
qed

lemma spec_run_locks:
  "locks (fst (spec_run snap st stream)) = locks st"
proof (induction stream arbitrary: st)
  case Nil
  show ?case by simp
next
  case (Cons x stream)
  show ?case by (cases x) (simp_all add: Cons split_beta Let_def write_locks)
qed

text \<open>
  C6. Both executors do what the specification's executor does on the operations their
  records stand for: one store call per operation, front to back, each on the store as
  the calls before it left it, with the events of a call after those of the calls
  before it. \<open>Read\<close> is \<open>read\<close>, \<open>Write\<close> is \<open>write\<close>, \<open>Snapshot\<close> is \<open>to_string\<close>; the
  value read and the text appear in the list of calls only. There are as many calls as
  operations, the fields at the end are the fields at the start with the in-range
  writes applied in order, and the number of guards is unchanged.
\<close>

theorem executor_dispatch:
  "worker destroy mf ops = spec_run (lab4_to_string destroy) mf (map lab4_operation ops) \<and>
   execute_ops destroy mf ops2 = spec_run (demo_to_string destroy) mf (map demo_operation ops2) \<and>
   length (snd (snd (worker destroy mf ops))) = length ops \<and>
   length (snd (snd (execute_ops destroy mf ops2))) = length ops2 \<and>
   vals (fst (worker destroy mf ops)) = foldl spec_effect (vals mf) (map lab4_operation ops) \<and>
   vals (fst (execute_ops destroy mf ops2)) = foldl spec_effect (vals mf) (map demo_operation ops2) \<and>
   locks (fst (worker destroy mf ops)) = locks mf \<and>
   locks (fst (execute_ops destroy mf ops2)) = locks mf"
  by (simp add: worker_refines execute_ops_refines spec_run_calls spec_run_vals spec_run_locks)

text \<open>
  C7. On a store that has a field 0, the stream of a write of 5 to index 0 followed by
  a read of index 0, run alone, makes the read return 5.
\<close>

theorem read_after_write:
  "0 < length (vals mf) \<Longrightarrow>
     snd (snd (worker destroy mf
        [\<lparr>type = WRITE, idx = 0, value = 5\<rparr>, \<lparr>type = READ, idx = 0, value = x\<rparr>])) =
       [WriteCall 0 5, ReadCall 0 5] \<and>
     snd (snd (execute_ops destroy mf
        [\<lparr>type = WRITE, idx = 0, value = 5\<rparr>, \<lparr>type = READ, idx = 0, value = y\<rparr>])) =
       [WriteCall 0 5, ReadCall 0 5]"
  by (simp add: worker_body_def execute_ops_body_def read_def write_def size_t_of_int_def)

theorem read_after_write_witness:
  "0 < length (vals (lab4_MultiField 3)) \<and>
     snd (snd (worker (\<lambda>n. rev [0..<n]) (lab4_MultiField 3)
        [\<lparr>type = WRITE, idx = 0, value = 5\<rparr>, \<lparr>type = READ, idx = 0, value = 0\<rparr>])) =
       [WriteCall 0 5, ReadCall 0 5] \<and>
     snd (snd (execute_ops (\<lambda>n. rev [0..<n]) (lab4_MultiField 3)
        [\<lparr>type = WRITE, idx = 0, value = 5\<rparr>, \<lparr>type = READ, idx = 0, value = 0\<rparr>])) =
       [WriteCall 0 5, ReadCall 0 5]"
  using read_after_write [of "lab4_MultiField 3" "\<lambda>n. rev [0..<n]" 0 0]
  by (simp add: lab4_MultiField_def)

section \<open>The locks of one call\<close>

subsection \<open>Guards owned along a list of events\<close>

lemma held_after_simps [simp]:
  "held_after h [] = h"
  "held_after h (e # es) = held_after (owned_step h e) es"
  "held_after h (es @ es') = held_after (held_after h es) es'"
  by (simp_all add: held_after_def)

lemma held_after_acquires:
  "held_after h (map (Acquire m) ks) = rev (map (\<lambda>k. (k, m)) ks) @ h"
  by (induction ks arbitrary: h) simp_all

lemma held_after_loads: "held_after h (map Load ks) = h"
  by (induction ks) simp_all

lemma held_after_releases:
  "mset (map (\<lambda>k. (k, m)) ds) = mset h \<Longrightarrow> held_after h (map (Release m) ds) = []"
proof (induction ds arbitrary: h)
  case Nil
  then show ?case by simp
next
  case (Cons d ds)
  from Cons.prems have "mset (remove1 (d, m) h) = mset (map (\<lambda>k. (k, m)) ds)"
    by (metis add_mset_remove_trivial list.simps(9) mset.simps(2) mset_remove1)
  then show ?case using Cons.IH by simp
qed

lemma peak_ge: "length h \<le> peak h es"
  by (cases es) simp_all

lemma peak_append: "peak h (es @ es') = max (peak h es) (peak (held_after h es) es')"
proof (induction es arbitrary: h)
  case Nil
  show ?case using peak_ge [of h es'] by simp
next
  case (Cons e es)
  show ?case by (simp add: Cons max.assoc)
qed

lemma peak_acquires: "peak h (map (Acquire m) ks) = length h + length ks"
  by (induction ks arbitrary: h) simp_all

lemma peak_loads: "peak h (map Load ks) = length h"
  by (induction ks) simp_all

lemma peak_releases: "peak h (map (Release m) ds) = length h"
proof (induction ds arbitrary: h)
  case Nil
  show ?case by simp
next
  case (Cons d ds)
  have "length (remove1 (d, m) h) \<le> length h"
    by (metis length_remove1 diff_le_self le_refl)
  then show ?case by (simp add: Cons)
qed

subsection \<open>The locking discipline\<close>

lemma disciplined_append:
  "disciplined h es \<Longrightarrow> disciplined [] es' \<Longrightarrow> disciplined h (es @ es')"
  by (induction es arbitrary: h) simp_all

lemma disciplined_acquires:
  "list_all (\<lambda>x. fst x < i) h \<Longrightarrow>
   disciplined (rev (map (\<lambda>k. (k, m)) [i..<n]) @ h) es \<Longrightarrow>
   disciplined h (map (Acquire m) [i..<n] @ es)"
proof (induction "n - i" arbitrary: i h)
  case 0
  then show ?case by simp
next
  case (Suc d)
  then have lt: "i < n" by simp
  have all: "list_all (\<lambda>x. fst x < Suc i) ((i, m) # h)"
    using Suc.prems(1) by (auto simp: list_all_iff)
  have "disciplined ((i, m) # h) (map (Acquire m) [Suc i..<n] @ es)"
  proof (rule Suc.hyps(1))
    show "d = n - Suc i" using Suc.hyps(2) by simp
    show "list_all (\<lambda>x. fst x < Suc i) ((i, m) # h)" by (rule all)
    show "disciplined (rev (map (\<lambda>k. (k, m)) [Suc i..<n]) @ (i, m) # h) es"
      using Suc.prems(2) lt by (simp add: upt_conv_Cons)
  qed
  then show ?case using lt Suc.prems(1) by (simp add: upt_conv_Cons)
qed

lemma disciplined_loads:
  "set ks \<subseteq> fst ` set h \<Longrightarrow> disciplined h es \<Longrightarrow> disciplined h (map Load ks @ es)"
  by (induction ks) auto

lemma disciplined_releases:
  "mset (map (\<lambda>k. (k, m)) ds) = mset h \<Longrightarrow> disciplined h (map (Release m) ds)"
proof (induction ds arbitrary: h)
  case Nil
  then show ?case by simp
next
  case (Cons d ds)
  from Cons.prems have in_h: "(d, m) \<in> set h"
    by (metis list.set_intros(1) list.simps(9) set_mset_mset)
  from Cons.prems have "mset (map (\<lambda>k. (k, m)) ds) = mset (remove1 (d, m) h)"
    by (metis add_mset_remove_trivial list.simps(9) mset.simps(2) mset_remove1)
  then show ?case using Cons.IH in_h by simp
qed

subsection \<open>The events of the calls and of the executors\<close>

lemma destroy_mset:
  "destroys_each_once destroy \<Longrightarrow>
     mset (map (\<lambda>k. (k, m)) (destroy n)) = mset (rev (map (\<lambda>k. (k, m)) [0..<n]))"
proof -
  assume "destroys_each_once destroy"
  then have "mset (destroy n) = mset [0..<n]" by (simp add: destroys_each_once_def)
  then have "image_mset (\<lambda>k. (k, m)) (mset (destroy n)) = image_mset (\<lambda>k. (k, m)) (mset [0..<n])"
    by simp
  then show ?thesis by (simp del: mset_upt)
qed

lemma snapshot_events_disciplined:
  assumes "destroys_each_once destroy"
  shows "disciplined [] (map (Acquire Shared) [0..<n] @ map Load [0..<n] @
            map (Release Shared) (destroy n))"
proof (rule disciplined_acquires)
  show "list_all (\<lambda>x. fst x < 0) []" by simp
  show "disciplined (rev (map (\<lambda>k. (k, Shared)) [0..<n]) @ [])
          (map Load [0..<n] @ map (Release Shared) (destroy n))"
  proof (rule disciplined_loads)
    show "set [0..<n] \<subseteq> fst ` set (rev (map (\<lambda>k. (k, Shared)) [0..<n]) @ [])"
      by (auto simp: image_iff)
    show "disciplined (rev (map (\<lambda>k. (k, Shared)) [0..<n]) @ []) (map (Release Shared) (destroy n))"
      using destroy_mset [OF assms, of Shared n] by (intro disciplined_releases) simp
  qed
qed

lemma read_disciplined: "disciplined [] (snd (read mf i))"
  by (simp add: read_def)

lemma write_disciplined: "disciplined [] (snd (write mf i v))"
  by (simp add: write_def)

lemma to_string_disciplined:
  assumes "destroys_each_once destroy" and "sized mf"
  shows "disciplined [] (snd (demo_to_string destroy mf))"
    and "disciplined [] (snd (lab4_to_string destroy mf))"
  using snapshot_events_disciplined [OF assms(1), of "locks mf"] assms(2)
  by (simp_all add: to_string_events sized_def)

lemma worker_body_disciplined:
  assumes "destroys_each_once destroy" and "sized mf"
  shows "disciplined [] (fst (snd (worker_body destroy mf opn)))"
  using read_disciplined write_disciplined to_string_disciplined(2) [OF assms]
  by (cases "type opn") (simp_all add: worker_body_def split_beta)

lemma worker_body_sized: "sized mf \<Longrightarrow> sized (fst (worker_body destroy mf opn))"
  using sized_write by (cases "type opn") (simp_all add: worker_body_def split_beta)

lemma worker_disciplined:
  assumes "destroys_each_once destroy"
  shows "sized mf \<Longrightarrow> disciplined [] (fst (snd (worker destroy mf ops)))"
proof (induction ops arbitrary: mf)
  case Nil
  show ?case by simp
next
  case (Cons opn ops)
  have "disciplined [] (fst (snd (worker destroy (fst (worker_body destroy mf opn)) ops)))"
    using Cons.IH worker_body_sized [OF Cons.prems] by simp
  then show ?case
    using worker_body_disciplined [OF assms Cons.prems, of opn]
    by (simp add: split_beta Let_def disciplined_append)
qed

lemma execute_ops_body_disciplined:
  assumes "destroys_each_once destroy" and "sized mf"
  shows "disciplined [] (fst (snd (execute_ops_body destroy mf opn)))"
  using read_disciplined write_disciplined to_string_disciplined(1) [OF assms]
  by (cases "type opn") (simp_all add: execute_ops_body_def split_beta)

lemma execute_ops_body_sized: "sized mf \<Longrightarrow> sized (fst (execute_ops_body destroy mf opn))"
  using sized_write by (cases "type opn") (simp_all add: execute_ops_body_def split_beta)

lemma execute_ops_disciplined:
  assumes "destroys_each_once destroy"
  shows "sized mf \<Longrightarrow> disciplined [] (fst (snd (execute_ops destroy mf ops)))"
proof (induction ops arbitrary: mf)
  case Nil
  show ?case by simp
next
  case (Cons opn ops)
  have "disciplined [] (fst (snd (execute_ops destroy (fst (execute_ops_body destroy mf opn)) ops)))"
    using Cons.IH execute_ops_body_sized [OF Cons.prems] by simp
  then show ?case
    using execute_ops_body_disciplined [OF assms Cons.prems, of opn]
    by (simp add: split_beta Let_def disciplined_append)
qed

text \<open>The events of a stream depend on the sizes only.\<close>

lemma worker_body_events_sized:
  "length (vals mf) = length (vals mf') \<Longrightarrow> locks mf = locks mf' \<Longrightarrow>
     fst (snd (worker_body destroy mf opn)) = fst (snd (worker_body destroy mf' opn)) \<and>
     length (vals (fst (worker_body destroy mf opn))) = length (vals (fst (worker_body destroy mf' opn))) \<and>
     locks (fst (worker_body destroy mf opn)) = locks (fst (worker_body destroy mf' opn))"
  by (cases "type opn")
     (simp_all add: worker_body_def split_beta read_def write_def to_string_events)

lemma worker_events_sized:
  "length (vals mf) = length (vals mf') \<Longrightarrow> locks mf = locks mf' \<Longrightarrow>
     fst (snd (worker destroy mf ops)) = fst (snd (worker destroy mf' ops))"
proof (induction ops arbitrary: mf mf')
  case Nil
  show ?case by simp
next
  case (Cons opn ops)
  note b = worker_body_events_sized [OF Cons.prems, of destroy opn]
  have "fst (snd (worker destroy (fst (worker_body destroy mf opn)) ops)) =
        fst (snd (worker destroy (fst (worker_body destroy mf' opn)) ops))"
    using b by (intro Cons.IH) simp_all
  then show ?case
    using b by (simp add: split_beta Let_def)
qed

lemma execute_ops_body_events_sized:
  "length (vals mf) = length (vals mf') \<Longrightarrow> locks mf = locks mf' \<Longrightarrow>
     fst (snd (execute_ops_body destroy mf opn)) = fst (snd (execute_ops_body destroy mf' opn)) \<and>
     length (vals (fst (execute_ops_body destroy mf opn))) =
       length (vals (fst (execute_ops_body destroy mf' opn))) \<and>
     locks (fst (execute_ops_body destroy mf opn)) = locks (fst (execute_ops_body destroy mf' opn))"
  by (cases "type opn")
     (simp_all add: execute_ops_body_def split_beta read_def write_def to_string_events)

lemma execute_ops_events_sized:
  "length (vals mf) = length (vals mf') \<Longrightarrow> locks mf = locks mf' \<Longrightarrow>
     fst (snd (execute_ops destroy mf ops)) = fst (snd (execute_ops destroy mf' ops))"
proof (induction ops arbitrary: mf mf')
  case Nil
  show ?case by simp
next
  case (Cons opn ops)
  note b = execute_ops_body_events_sized [OF Cons.prems, of destroy opn]
  have "fst (snd (execute_ops destroy (fst (execute_ops_body destroy mf opn)) ops)) =
        fst (snd (execute_ops destroy (fst (execute_ops_body destroy mf' opn)) ops))"
    using b by (intro Cons.IH) simp_all
  then show ?case
    using b by (simp add: split_beta Let_def)
qed

text \<open>
  C1. On a store of \<open>M\<close> fields, the events of the snapshot are: the shared
  acquisitions of guards 0 to \<open>M - 1\<close> in this order, the loads of fields 0 to
  \<open>M - 1\<close>, the releases of all \<open>M\<close> guards (both files). From the last acquisition
  through every load the call owns all \<open>M\<close> guards; it owns none when it returns; it
  keeps the discipline (each acquisition above the guards already owned, each load
  under its guard). Its peak is \<open>M\<close> guards at a time, while \<open>read\<close> and \<open>write\<close> never
  own more than one.
\<close>

theorem snapshot_locking:
  assumes "destroys_each_once destroy" and "sized mf" and "M = length (vals mf)"
  shows "snd (demo_to_string destroy mf) =
           map (Acquire Shared) [0..<M] @ map Load [0..<M] @ map (Release Shared) (destroy M) \<and>
         snd (lab4_to_string destroy mf) = snd (demo_to_string destroy mf) \<and>
         (\<forall>n \<le> M. held_after [] (map (Acquire Shared) [0..<M] @ map Load [0..<n]) =
                     rev (map (\<lambda>k. (k, Shared)) [0..<M])) \<and>
         held_after [] (snd (demo_to_string destroy mf)) = [] \<and>
         disciplined [] (snd (demo_to_string destroy mf)) \<and>
         peak [] (snd (demo_to_string destroy mf)) = M \<and>
         peak [] (snd (read mf i)) \<le> 1 \<and>
         peak [] (snd (write mf i v)) \<le> 1"
proof -
  from assms have l: "locks mf = M" by (simp add: sized_def)
  have ev: "snd (demo_to_string destroy mf) =
           map (Acquire Shared) [0..<M] @ map Load [0..<M] @ map (Release Shared) (destroy M)"
    using l assms(3) by (simp add: to_string_events)
  have same: "snd (lab4_to_string destroy mf) = snd (demo_to_string destroy mf)"
    by (simp add: to_string_events)
  have held: "\<forall>n \<le> M. held_after [] (map (Acquire Shared) [0..<M] @ map Load [0..<n]) =
                     rev (map (\<lambda>k. (k, Shared)) [0..<M])"
    by (simp add: held_after_acquires held_after_loads)
  note perm = destroy_mset [OF assms(1), of Shared M]
  have rel: "held_after [] (snd (demo_to_string destroy mf)) = []"
    unfolding ev using perm
    by (simp add: held_after_acquires held_after_loads held_after_releases)
  have disc: "disciplined [] (snd (demo_to_string destroy mf))"
    using to_string_disciplined(1) [OF assms(1,2)] .
  have pk: "peak [] (snd (demo_to_string destroy mf)) = M"
    unfolding ev
    by (simp add: peak_append peak_acquires peak_loads peak_releases
          held_after_acquires held_after_loads)
  have rd: "peak [] (snd (read mf i)) \<le> 1" by (simp add: read_def)
  have wr: "peak [] (snd (write mf i v)) \<le> 1" by (simp add: write_def)
  from ev same held rel disc pk rd wr show ?thesis by blast
qed

theorem snapshot_locking_witness:
  "destroys_each_once (\<lambda>n. rev [0..<n]) \<and> sized (lab4_MultiField 2) \<and>
   snd (demo_to_string (\<lambda>n. rev [0..<n]) (lab4_MultiField 2)) =
     [Acquire Shared 0, Acquire Shared 1, Load 0, Load 1, Release Shared 1, Release Shared 0] \<and>
   snd (lab4_to_string (\<lambda>n. rev [0..<n]) (lab4_MultiField 2)) =
     [Acquire Shared 0, Acquire Shared 1, Load 0, Load 1, Release Shared 1, Release Shared 0] \<and>
   held_after [] [Acquire Shared 0, Acquire Shared 1, Load 0] = [(1, Shared), (0, Shared)] \<and>
   peak [] (snd (demo_to_string (\<lambda>n. rev [0..<n]) (lab4_MultiField 2))) = 2 \<and>
   peak [] (snd (read (lab4_MultiField 2) 1)) \<le> 1"
proof -
  let ?d = "\<lambda>n. rev [0..<n]"
  have d: "destroys_each_once ?d" by (simp add: destroys_each_once_def)
  have z: "sized (lab4_MultiField 2)" by (rule sized_lab4_MultiField)
  have m: "2 = length (vals (lab4_MultiField 2))" by (simp add: lab4_MultiField_def)
  have u: "[0..<2] = [0, 1]" "[0..<1] = [0]" by (simp_all add: upt_rec)
  from snapshot_locking [OF d z m, of 1 0] d z show ?thesis
    by (simp add: u)
qed

section \<open>Threads on one store\<close>

lemma disciplined_step:
  "disciplined h (e # es) \<Longrightarrow> disciplined (owned_step h e) es"
  by simp

lemma sched_step_orderly:
  assumes "orderly s" and "sched_step s t = Some s'"
  shows "orderly s'"
proof -
  from assms(2) obtain e es where
    t: "t < length (threads s)" and p: "pending (threads s ! t) = e # es" and
    s': "threads s' = (threads s)[t := \<lparr>owned = owned_step (owned (threads s ! t)) e, pending = es\<rparr>]"
    by (auto simp: sched_step_def split: if_splits list.splits)
  from t assms(1) have "disciplined (owned (threads s ! t)) (pending (threads s ! t))"
    by (simp add: orderly_def)
  with p have "disciplined (owned_step (owned (threads s ! t)) e) es" by simp
  with assms(1) show ?thesis
    unfolding orderly_def s' by (auto dest!: set_update_subset_insert [THEN subsetD])
qed

lemma sched_step_remaining:
  assumes "sched_step s t = Some s'"
  shows "Suc (remaining s') = remaining s"
proof -
  from assms obtain e es where
    t: "t < length (threads s)" and p: "pending (threads s ! t) = e # es" and
    s': "threads s' = (threads s)[t := \<lparr>owned = owned_step (owned (threads s ! t)) e, pending = es\<rparr>]"
    by (auto simp: sched_step_def split: if_splits list.splits)
  let ?f = "\<lambda>t. length (pending t)"
  have "sum_list ((map ?f (threads s))[t := length es]) =
          sum_list (map ?f (threads s)) + length es - map ?f (threads s) ! t"
    using t by (intro sum_list_update) simp
  moreover have "map ?f (threads s) ! t \<le> sum_list (map ?f (threads s))"
    using t by (intro member_le_sum_list nth_mem) simp_all
  ultimately show ?thesis
    using t p by (simp add: remaining_def s' map_update)
qed

lemma run_invariant:
  "run s sched = Some s' \<Longrightarrow> orderly s \<Longrightarrow>
     orderly s' \<and> length sched + remaining s' = remaining s"
proof (induction sched arbitrary: s)
  case Nil
  then show ?case by simp
next
  case (Cons t sched)
  from Cons.prems(1) obtain s1 where
    s1: "sched_step s t = Some s1" and r: "run s1 sched = Some s'"
    by (auto split: option.splits)
  from Cons.IH [OF r sched_step_orderly [OF Cons.prems(2) s1]]
       sched_step_remaining [OF s1]
  show ?case by simp
qed

lemma finished_remaining: "finished s \<longleftrightarrow> remaining s = 0"
  by (auto simp: finished_def remaining_def list_all_iff)

lemma unopposed_enabled: "unopposed ts e \<Longrightarrow> enabled ts e"
proof (cases e)
  case (Acquire m k)
  assume "unopposed ts e"
  with Acquire show ?thesis
    by (cases m) (auto simp: grantable_def list_all_iff)
qed simp_all

lemma some_thread_unopposed:
  assumes ord: "orderly s" and nf: "\<not> finished s"
  shows "\<exists>i e es. i < length (threads s) \<and> pending (threads s ! i) = e # es \<and>
           unopposed (threads s) e"
proof -
  let ?ts = "threads s"
  let ?A = "{t \<in> set ?ts. pending t \<noteq> []}"
  have pick: "\<exists>i e es. i < length ?ts \<and> pending (?ts ! i) = e # es \<and> unopposed ?ts e"
    if "t \<in> set ?ts" "pending t = e # es" "unopposed ?ts e" for t e es
    using that by (metis in_set_conv_nth)
  show ?thesis
  proof (cases "\<forall>t \<in> ?A. \<exists>m k es. pending t = Acquire m k # es")
    case False
    then obtain t where tA: "t \<in> ?A" and na: "\<nexists>m k es. pending t = Acquire m k # es"
      by blast
    from tA obtain e es where p: "pending t = e # es" by (cases "pending t") auto
    with na have "unopposed ?ts e" by (cases e) auto
    with tA p show ?thesis using pick by blast
  next
    case True
    note all_acquire = this
    from nf have ne: "?A \<noteq> {}" by (auto simp: finished_def list_all_iff)
    let ?K = "Max (wants ` ?A)"
    from ne have "?K \<in> wants ` ?A" by (intro Max_in) auto
    then obtain t where tA: "t \<in> ?A" and tK: "wants t = ?K" by auto
    have free: "(?K, m') \<notin> set (owned u)" if u: "u \<in> set ?ts" for u m'
    proof
      assume own: "(?K, m') \<in> set (owned u)"
      from ord u have du: "disciplined (owned u) (pending u)" by (simp add: orderly_def)
      from own du have "pending u \<noteq> []" by (cases "pending u") auto
      with u have uA: "u \<in> ?A" by simp
      with all_acquire obtain m2 k2 es2 where pu: "pending u = Acquire m2 k2 # es2" by blast
      with du own have "?K < k2" by (auto simp: list_all_iff)
      moreover have "wants u \<le> ?K" using uA by (intro Max_ge) auto
      ultimately show False using pu by (simp add: wants_def)
    qed
    then have nobody: "list_all (\<lambda>t. (?K, Shared) \<notin> set (owned t) \<and> (?K, Exclusive) \<notin> set (owned t)) ?ts"
      by (simp add: list_all_iff)
    show ?thesis
    proof (cases "\<exists>w \<in> set ?ts. waits_exclusive w ?K")
      case True
      then obtain w where w: "w \<in> set ?ts" and we: "waits_exclusive w ?K" by blast
      then obtain es where "pending w = Acquire Exclusive ?K # es"
        by (auto simp: waits_exclusive_def split: list.splits)
      moreover have "unopposed ?ts (Acquire Exclusive ?K)" using nobody by simp
      ultimately show ?thesis using w pick by blast
    next
      case False
      from all_acquire tA obtain m k es where p: "pending t = Acquire m k # es"
        by blast
      with tK have k: "k = ?K" by (simp add: wants_def)
      from False have "list_all (\<lambda>t. \<not> waits_exclusive t ?K) ?ts" by (simp add: list_all_iff)
      with nobody have "unopposed ?ts (Acquire m ?K)" by simp
      with p k tA show ?thesis using pick by blast
    qed
  qed
qed

lemma some_thread_enabled:
  assumes ord: "orderly s" and nf: "\<not> finished s"
  shows "\<exists>t. sched_step s t \<noteq> None"
proof -
  from some_thread_unopposed [OF assms] obtain i e es where
    "i < length (threads s)" "pending (threads s ! i) = e # es" "unopposed (threads s) e"
    by blast
  then have "sched_step s i \<noteq> None"
    by (simp add: sched_step_def unopposed_enabled)
  then show ?thesis ..
qed

lemma launch_orderly:
  "(\<forall>p \<in> set progs. disciplined [] p) \<Longrightarrow> orderly (launch mf progs)"
  by (auto simp: orderly_def launch_def)

lemma run_test_orderly:
  "destroys_each_once destroy \<Longrightarrow> sized data \<Longrightarrow> orderly (run_test destroy data thread_ops)"
  unfolding run_test_def by (rule launch_orderly) (auto intro: worker_disciplined)

lemma run_test_case_orderly:
  "destroys_each_once destroy \<Longrightarrow> orderly (run_test_case destroy m all_ops)"
  unfolding run_test_case_def
  by (rule launch_orderly) (auto intro: execute_ops_disciplined sized_demo_MultiField)

text \<open>
  C2. Any number of threads, each running any stream of reads, writes and snapshots
  on the same store, under any scheduler: an execution makes at most as many steps as
  there are events in all the streams together (so it is finite), it has made exactly
  that many when every call of every thread has returned, and as long as some call has
  not returned, some thread can make its next step. No reachable state is a deadlock.
\<close>

theorem no_deadlock:
  assumes "destroys_each_once destroy" and "sized data"
    and "s0 = run_test destroy data thread_ops \<or> s0 = run_test_case destroy m all_ops"
    and "run s0 sched = Some s"
  shows "length sched \<le> remaining s0 \<and>
         (finished s \<longleftrightarrow> length sched = remaining s0) \<and>
         (finished s \<or> (\<exists>t. sched_step s t \<noteq> None))"
proof -
  from assms(1-3) have "orderly s0"
    using run_test_orderly run_test_case_orderly by blast
  from run_invariant [OF assms(4) this]
  have ord: "orderly s" and len: "length sched + remaining s = remaining s0" by simp_all
  from some_thread_enabled [OF ord] have "finished s \<or> (\<exists>t. sched_step s t \<noteq> None)" by blast
  moreover from len have "length sched \<le> remaining s0" by simp
  moreover from len have "finished s \<longleftrightarrow> length sched = remaining s0"
    by (auto simp: finished_remaining)
  ultimately show ?thesis by blast
qed

theorem no_deadlock_witness:
  "destroys_each_once (\<lambda>n. rev [0..<n]) \<and> sized (lab4_MultiField 2) \<and>
   run (run_test (\<lambda>n. rev [0..<n]) (lab4_MultiField 2)
          [[\<lparr>type = WRITE, idx = 1, value = 5\<rparr>], [\<lparr>type = STRING, idx = 0, value = 0\<rparr>]])
       [0, 1, 0] =
     Some \<lparr>shared_vals = [0, 5],
            threads = [\<lparr>owned = [(1, Exclusive)], pending = [Release Exclusive 1]\<rparr>,
                       \<lparr>owned = [(0, Shared)],
                          pending = [Acquire Shared 1, Load 0, Load 1,
                                     Release Shared 1, Release Shared 0]\<rparr>]\<rparr> \<and>
   sched_step \<lparr>shared_vals = [0, 5],
            threads = [\<lparr>owned = [(1, Exclusive)], pending = [Release Exclusive 1]\<rparr>,
                       \<lparr>owned = [(0, Shared)],
                          pending = [Acquire Shared 1, Load 0, Load 1,
                                     Release Shared 1, Release Shared 0]\<rparr>]\<rparr> 1 = None \<and>
   (\<exists>t. sched_step \<lparr>shared_vals = [0, 5],
            threads = [\<lparr>owned = [(1, Exclusive)], pending = [Release Exclusive 1]\<rparr>,
                       \<lparr>owned = [(0, Shared)],
                          pending = [Acquire Shared 1, Load 0, Load 1,
                                     Release Shared 1, Release Shared 0]\<rparr>]\<rparr> t \<noteq> None) \<and>
   remaining (run_test (\<lambda>n. rev [0..<n]) (lab4_MultiField 2)
          [[\<lparr>type = WRITE, idx = 1, value = 5\<rparr>], [\<lparr>type = STRING, idx = 0, value = 0\<rparr>]]) = 9"
proof -
  have d: "destroys_each_once (\<lambda>n. rev [0..<n])" by (simp add: destroys_each_once_def)
  have z: "sized (lab4_MultiField 2)" by (rule sized_lab4_MultiField)
  have r: "run (run_test (\<lambda>n. rev [0..<n]) (lab4_MultiField 2)
          [[\<lparr>type = WRITE, idx = 1, value = 5\<rparr>], [\<lparr>type = STRING, idx = 0, value = 0\<rparr>]]) [0, 1, 0] =
     Some \<lparr>shared_vals = [0, 5],
            threads = [\<lparr>owned = [(1, Exclusive)], pending = [Release Exclusive 1]\<rparr>,
                       \<lparr>owned = [(0, Shared)],
                          pending = [Acquire Shared 1, Load 0, Load 1,
                                     Release Shared 1, Release Shared 0]\<rparr>]\<rparr>"
    by code_simp
  have b: "sched_step \<lparr>shared_vals = [0, 5],
            threads = [\<lparr>owned = [(1, Exclusive)], pending = [Release Exclusive 1]\<rparr>,
                       \<lparr>owned = [(0, Shared)],
                          pending = [Acquire Shared 1, Load 0, Load 1,
                                     Release Shared 1, Release Shared 0]\<rparr>]\<rparr> 1 = None"
    by code_simp
  have n: "remaining (run_test (\<lambda>n. rev [0..<n]) (lab4_MultiField 2)
          [[\<lparr>type = WRITE, idx = 1, value = 5\<rparr>], [\<lparr>type = STRING, idx = 0, value = 0\<rparr>]]) = 9"
    by code_simp
  have nf: "\<not> finished \<lparr>shared_vals = [0, 5],
            threads = [\<lparr>owned = [(1, Exclusive)], pending = [Release Exclusive 1]\<rparr>,
                       \<lparr>owned = [(0, Shared)],
                          pending = [Acquire Shared 1, Load 0, Load 1,
                                     Release Shared 1, Release Shared 0]\<rparr>]\<rparr>"
    by code_simp
  from no_deadlock [OF d z _ r, of _ 0 "[]"] nf
  have "\<exists>t. sched_step \<lparr>shared_vals = [0, 5],
            threads = [\<lparr>owned = [(1, Exclusive)], pending = [Release Exclusive 1]\<rparr>,
                       \<lparr>owned = [(0, Shared)],
                          pending = [Acquire Shared 1, Load 0, Load 1,
                                     Release Shared 1, Release Shared 0]\<rparr>]\<rparr> t \<noteq> None"
    by blast
  with d z r b n show ?thesis by blast
qed

text \<open>
  The same under any policy of the guards: in a state some execution reaches, either
  every call has returned or some thread has a next step that is unopposed.
\<close>

lemma progress_under_any_policy:
  assumes "destroys_each_once destroy" and "sized data"
    and "s0 = run_test destroy data thread_ops \<or> s0 = run_test_case destroy m all_ops"
    and "run s0 sched = Some s"
  shows "finished s \<or>
         (\<exists>i e es. i < length (threads s) \<and> pending (threads s ! i) = e # es \<and>
            unopposed (threads s) e)"
proof -
  from assms(1-3) have "orderly s0"
    using run_test_orderly run_test_case_orderly by blast
  from run_invariant [OF assms(4) this] have "orderly s" by simp
  then show ?thesis using some_thread_unopposed by blast
qed

section \<open>The workload loaders\<close>

lemma digit_value_nth: "k < 10 \<Longrightarrow> digit_value (''0123456789'' ! k) = k"
proof -
  assume "k < 10"
  then consider "k = 0" | "k = 1" | "k = 2" | "k = 3" | "k = 4" | "k = 5" | "k = 6" | "k = 7"
    | "k = 8" | "k = 9" by atomize_elim arith
  then show ?thesis by cases (simp_all add: digit_value_def)
qed

lemma decimal_snoc: "decimal (ds @ [c]) = 10 * decimal ds + digit_value c"
  by (simp add: decimal_def)

lemma decimal_digits: "decimal (digits n) = n"
proof (induction n rule: digits.induct)
  case (1 n)
  show ?case
  proof (cases "n < 10")
    case True
    then show ?thesis
      by (subst digits.simps) (simp add: decimal_def digit_value_nth)
  next
    case False
    then have "decimal (digits n) = 10 * decimal (digits (n div 10)) + digit_value (''0123456789'' ! (n mod 10))"
      by (subst digits.simps) (simp add: decimal_snoc)
    also have "\<dots> = 10 * (n div 10) + n mod 10"
      using 1 False by (simp add: digit_value_nth)
    finally show ?thesis by simp
  qed
qed

lemma digits_nonempty: "digits n \<noteq> []"
  by (subst digits.simps) simp

lemma isdigit_not_space: "isdigit c \<Longrightarrow> \<not> isspace c"
  by (auto simp: isdigit_def isspace_def)

lemma isdigit_not_sign: "isdigit c \<Longrightarrow> c \<noteq> CHR ''-'' \<and> c \<noteq> CHR ''+''"
  by (auto simp: isdigit_def)

lemma not_isdigit_space: "isspace c \<Longrightarrow> \<not> isdigit c"
  using isdigit_not_space by blast

lemma skip_space:
  "list_all isspace ws \<Longrightarrow> \<not> isspace c \<Longrightarrow> dropWhile isspace (ws @ c # r) = c # r"
  by (induction ws) simp_all

lemma take_digits:
  "\<not> isdigit c \<Longrightarrow> takeWhile isdigit (digits n @ c # r) = digits n"
  using digits_isdigit [of _ n] by (simp add: takeWhile_append2)

lemma drop_digits:
  "\<not> isdigit c \<Longrightarrow> dropWhile isdigit (digits n @ c # r) = c # r"
  using digits_isdigit [of _ n] by (simp add: dropWhile_append2)

lemma digits_Cons: "\<exists>d ds. digits n = d # ds \<and> isdigit d"
proof (cases "digits n")
  case Nil
  then show ?thesis using digits_nonempty by simp
next
  case (Cons d ds)
  then show ?thesis using digits_isdigit [of d n] by simp
qed

lemma get_size_t_digits:
  assumes "n < 2 ^ 64" and "list_all isspace ws" and "\<not> isdigit c"
  shows "get_size_t old \<lparr>rest = ws @ digits n @ c # r, failbit = False\<rparr> =
           (n, \<lparr>rest = c # r, failbit = False\<rparr>)"
proof -
  obtain d ds where dd: "digits n = d # ds" and d: "isdigit d" using digits_Cons by blast
  have skip: "dropWhile isspace (ws @ digits n @ c # r) = digits n @ c # r"
    using skip_space [OF assms(2), of d "ds @ c # r"] d isdigit_not_space by (simp add: dd)
  have body: "unsigned_body (digits n @ c # r) = digits n @ c # r"
    using d isdigit_not_sign by (simp add: unsigned_body_def dd)
  have hd: "hd (digits n @ c # r) \<noteq> CHR ''-''"
    using d isdigit_not_sign by (simp add: dd)
  show ?thesis
    using assms(1) hd digits_nonempty [of n]
    by (simp add: get_size_t_def skip body take_digits [OF assms(3)] drop_digits [OF assms(3)]
          decimal_digits Let_def)
qed

lemma get_int_put_int:
  assumes "- (2 ^ 31) \<le> v" and "v < 2 ^ 31" and "list_all isspace ws" and "\<not> isdigit c"
  shows "get_int old \<lparr>rest = ws @ put_int v @ c # r, failbit = False\<rparr> =
           (v, \<lparr>rest = c # r, failbit = False\<rparr>)"
proof (cases "v < 0")
  case True
  let ?n = "nat (- v)"
  have p: "put_int v = CHR ''-'' # digits ?n" using True by (simp add: put_int_def)
  have ns: "\<not> isspace (CHR ''-'')" by (simp add: isspace_def)
  have skip: "dropWhile isspace (ws @ put_int v @ c # r) = CHR ''-'' # digits ?n @ c # r"
    using skip_space [OF assms(3) ns, of "digits ?n @ c # r"] by (simp add: p)
  have body: "unsigned_body (CHR ''-'' # digits ?n @ c # r) = digits ?n @ c # r"
    by (simp add: unsigned_body_def)
  show ?thesis
    using assms(1,2) True digits_nonempty [of ?n]
    by (simp add: get_int_def skip body take_digits [OF assms(4)] drop_digits [OF assms(4)]
          decimal_digits Let_def)
next
  case False
  let ?n = "nat v"
  have p: "put_int v = digits ?n" using False by (simp add: put_int_def)
  obtain d ds where dd: "digits ?n = d # ds" and d: "isdigit d" using digits_Cons by blast
  have skip: "dropWhile isspace (ws @ put_int v @ c # r) = digits ?n @ c # r"
    using skip_space [OF assms(3), of d "ds @ c # r"] d isdigit_not_space by (simp add: p dd)
  have body: "unsigned_body (digits ?n @ c # r) = digits ?n @ c # r"
    using d isdigit_not_sign by (simp add: unsigned_body_def dd)
  have hd: "hd (digits ?n @ c # r) \<noteq> CHR ''-''"
    using d isdigit_not_sign by (simp add: dd)
  show ?thesis
    using assms(1,2) False hd digits_nonempty [of ?n]
    by (simp add: get_int_def skip body take_digits [OF assms(4)] drop_digits [OF assms(4)]
          decimal_digits Let_def)
qed

lemma get_string_token:
  assumes "tok \<noteq> []" and "list_all (\<lambda>c. \<not> isspace c) tok" and "list_all isspace ws"
    and "isspace c"
  shows "get_string old \<lparr>rest = ws @ tok @ c # r, failbit = False\<rparr> =
           (tok, \<lparr>rest = c # r, failbit = False\<rparr>)"
proof -
  from assms(1) obtain t ts where tt: "tok = t # ts" by (cases tok) auto
  with assms(2) have t: "\<not> isspace t" by simp
  have skip: "dropWhile isspace (ws @ tok @ c # r) = tok @ c # r"
    using skip_space [OF assms(3) t, of "ts @ c # r"] by (simp add: tt)
  have all: "\<And>x. x \<in> set tok \<Longrightarrow> \<not> isspace x"
    using assms(2) by (simp add: list_all_iff)
  have tk: "takeWhile (\<lambda>c. \<not> isspace c) (tok @ c # r) = tok"
    using all assms(4) by (simp add: takeWhile_append2)
  have dr: "dropWhile (\<lambda>c. \<not> isspace c) (tok @ c # r) = c # r"
    using all assms(4) by (simp add: dropWhile_append2)
  show ?thesis
    using assms(1) by (simp add: get_string_def skip tk dr Let_def)
qed

lemma space_chars: "isspace (CHR '' '')" "isspace (CHR 0x0A)" "\<not> isdigit (CHR 0x0A)"
  "\<not> isdigit (CHR '' '')"
  by (simp_all add: isspace_def isdigit_def)

lemma keywords_no_space:
  "list_all (\<lambda>c. \<not> isspace c) ''read''" "list_all (\<lambda>c. \<not> isspace c) ''write''"
  "list_all (\<lambda>c. \<not> isspace c) ''string''"
  by (simp_all add: isspace_def)

lemma getline_tail:
  "CHR 0x0A \<notin> set tail \<Longrightarrow>
     getline \<lparr>rest = tail @ CHR 0x0A # r, failbit = False\<rparr> = \<lparr>rest = r, failbit = False\<rparr>"
proof -
  assume "CHR 0x0A \<notin> set tail"
  then have "dropWhile (\<lambda>c. c \<noteq> CHR 0x0A) (tail @ CHR 0x0A # r) = CHR 0x0A # r"
    by (induction tail) auto
  then show ?thesis by (simp add: getline_def)
qed

lemma file_text_Cons: "file_text (l # ls) = line_text l @ CHR 0x0A # file_text ls"
  by (simp add: file_text_def)

lemma loop_lines:
  "list_all well_formed ls \<Longrightarrow> list_all isspace ws \<Longrightarrow>
     load_ops_from_file_loop idx0 val0 cmd ops \<lparr>rest = ws @ file_text ls, failbit = False\<rparr> =
       ops @ concat (map line_ops ls)"
proof (induction ls arbitrary: cmd ops ws)
  case Nil
  then have "dropWhile isspace ws = []" by (simp add: list_all_iff)
  then show ?case
    by (subst load_ops_from_file_loop.simps) (simp add: file_text_def get_string_def)
next
  case (Cons l ls)
  let ?F = "file_text ls"
  from Cons.prems have wf: "well_formed l" and wfs: "list_all well_formed ls" by simp_all
  note ws = Cons.prems(2)
  have nl: "list_all isspace [CHR 0x0A]" by (simp add: space_chars)
  have sp: "list_all isspace '' ''" by (simp add: space_chars)
  show ?case
  proof (cases l)
    case (ReadLine i)
    have c: "get_string cmd \<lparr>rest = ws @ file_text (l # ls), failbit = False\<rparr> =
               (''read'', \<lparr>rest = '' '' @ digits i @ CHR 0x0A # ?F, failbit = False\<rparr>)"
      using get_string_token [OF _ keywords_no_space(1) ws space_chars(1), of _ "digits i @ CHR 0x0A # ?F"]
      by (simp add: ReadLine file_text_Cons)
    have i: "get_size_t idx0 \<lparr>rest = '' '' @ digits i @ CHR 0x0A # ?F, failbit = False\<rparr> =
               (i, \<lparr>rest = [CHR 0x0A] @ ?F, failbit = False\<rparr>)"
      using get_size_t_digits [OF _ sp space_chars(3), of i] wf by (simp add: ReadLine)
    have o: "line_ops l = [\<lparr>type = READ, idx = i, value = 0\<rparr>]" by (simp add: ReadLine)
    show ?thesis
      by (subst load_ops_from_file_loop.simps)
         (simp add: c i Cons.IH [OF wfs nl] o Let_def del: append.simps)
  next
    case (WriteLine i v)
    have c: "get_string cmd \<lparr>rest = ws @ file_text (l # ls), failbit = False\<rparr> =
               (''write'', \<lparr>rest = '' '' @ digits i @ CHR '' '' # put_int v @ CHR 0x0A # ?F,
                             failbit = False\<rparr>)"
      using get_string_token [OF _ keywords_no_space(2) ws space_chars(1),
              of _ "digits i @ CHR '' '' # put_int v @ CHR 0x0A # ?F"]
      by (simp add: WriteLine file_text_Cons)
    have i: "get_size_t idx0 \<lparr>rest = '' '' @ digits i @ CHR '' '' # put_int v @ CHR 0x0A # ?F,
                                failbit = False\<rparr> =
               (i, \<lparr>rest = '' '' @ put_int v @ CHR 0x0A # ?F, failbit = False\<rparr>)"
      using get_size_t_digits [OF _ sp space_chars(4), of i] wf by (simp add: WriteLine)
    have v: "get_int val0 \<lparr>rest = '' '' @ put_int v @ CHR 0x0A # ?F, failbit = False\<rparr> =
               (v, \<lparr>rest = [CHR 0x0A] @ ?F, failbit = False\<rparr>)"
      using get_int_put_int [OF _ _ sp space_chars(3), of v] wf by (simp add: WriteLine)
    have o: "line_ops l = [\<lparr>type = WRITE, idx = i, value = v\<rparr>]" by (simp add: WriteLine)
    show ?thesis
      by (subst load_ops_from_file_loop.simps)
         (simp add: c i v Cons.IH [OF wfs nl] o Let_def del: append.simps)
  next
    case StringLine
    have c: "get_string cmd \<lparr>rest = ws @ file_text (l # ls), failbit = False\<rparr> =
               (''string'', \<lparr>rest = [CHR 0x0A] @ ?F, failbit = False\<rparr>)"
      using get_string_token [OF _ keywords_no_space(3) ws space_chars(2), of _ ?F]
      by (simp add: StringLine file_text_Cons)
    have o: "line_ops l = [\<lparr>type = STRING, idx = 0, value = 0\<rparr>]" by (simp add: StringLine)
    show ?thesis
      by (subst load_ops_from_file_loop.simps)
         (simp add: c Cons.IH [OF wfs nl] o Let_def del: append.simps)
  next
    case (OtherLine tok tail)
    with wf have tok: "tok \<noteq> []" "list_all (\<lambda>c. \<not> isspace c) tok"
      and kw: "tok \<noteq> ''read''" "tok \<noteq> ''write''" "tok \<noteq> ''string''"
      and tail: "CHR 0x0A \<notin> set tail" "tail = [] \<or> isspace (hd tail)"
      by simp_all
    have c: "get_string cmd \<lparr>rest = ws @ file_text (l # ls), failbit = False\<rparr> =
               (tok, \<lparr>rest = tail @ CHR 0x0A # ?F, failbit = False\<rparr>)"
    proof (cases tail)
      case Nil
      then show ?thesis
        using get_string_token [OF tok ws space_chars(2), of cmd ?F]
        by (simp add: OtherLine file_text_Cons)
    next
      case (Cons t ts)
      with tail(2) have "isspace t" by simp
      then show ?thesis
        using get_string_token [OF tok ws, of t cmd "ts @ CHR 0x0A # ?F"]
        by (simp add: OtherLine file_text_Cons Cons)
    qed
    have e: "list_all isspace []" by simp
    have o: "line_ops l = []" by (simp add: OtherLine)
    show ?thesis
      using kw Cons.IH [OF wfs e, of tok ops]
      by (subst load_ops_from_file_loop.simps)
         (simp add: c getline_tail [OF tail(1)] o Let_def)
  qed
qed

text \<open>
  On a file of well-formed lines \<open>load_ops_from_file\<close> loads the operation of every
  command line, in order, and nothing for a line that starts with an unknown command,
  whatever follows it on that line, other commands included.
\<close>

lemma load_ops_from_file_lines:
  "list_all well_formed ls \<Longrightarrow>
     load_ops_from_file idx0 val0 (Some (file_text ls)) = concat (map line_ops ls)"
  using loop_lines [of ls "[]" idx0 val0 "[]" "[]"] by (simp add: load_ops_from_file_def)

lemmas loader_simps =
  load_ops_from_file_def load_ops_from_file_loop.simps load_ops_def load_ops_loop.simps
  get_string_def get_size_t_def get_int_def getline_def isspace_def isdigit_def
  unsigned_body_def decimal_def digit_value_def Let_def

text \<open>
  C8. The file whose only line is \<open>foo read 1\<close>. \<open>load_ops\<close> (lab4.cpp) has no branch for
  an unknown command: it drops the token \<open>foo\<close> alone, goes on in the same line and
  loads the read. \<open>load_ops_from_file\<close> (demo_lab4.cpp) drops the rest of the line, as
  the claim says, and loads nothing.
\<close>

theorem unknown_command_rest_of_line:
  "load_ops idx0 val0 (Some (''foo read 1'' @ [CHR 0x0A])) =
     [\<lparr>type = READ, idx = 1, value = 0\<rparr>] \<and>
   load_ops_from_file idx0' val0 (Some (''foo read 1'' @ [CHR 0x0A])) = []"
  by (simp add: loader_simps)

text \<open>
  C9. The file of the two lines \<open>read x\<close> and \<open>write 0 5\<close>. The extraction of the index
  fails on \<open>x\<close>, stores 0 and sets the fail bit; the loaders push the read of index 0
  all the same, and the next extraction of a command fails on the fail bit, which ends
  the loop: the second line is never loaded. With \<open>read 1\<close> as first line both lines
  are loaded. A file that cannot be opened gives no operations.
\<close>

theorem malformed_argument_ends_loading:
  "load_ops_from_file idx0' val0 (Some (''read x'' @ [CHR 0x0A] @ ''write 0 5'' @ [CHR 0x0A])) =
     [\<lparr>type = READ, idx = 0, value = 0\<rparr>] \<and>
   load_ops idx0 val0 (Some (''read x'' @ [CHR 0x0A] @ ''write 0 5'' @ [CHR 0x0A])) =
     [\<lparr>type = READ, idx = 0, value = 0\<rparr>] \<and>
   load_ops_from_file idx0' val0 (Some (''read 1'' @ [CHR 0x0A] @ ''write 0 5'' @ [CHR 0x0A])) =
     [\<lparr>type = READ, idx = 1, value = 0\<rparr>, \<lparr>type = WRITE, idx = 0, value = 5\<rparr>] \<and>
   load_ops idx0 val0 (Some (''read 1'' @ [CHR 0x0A] @ ''write 0 5'' @ [CHR 0x0A])) =
     [\<lparr>type = READ, idx = 1, value = 0\<rparr>, \<lparr>type = WRITE, idx = 0, value = 5\<rparr>] \<and>
   load_ops_from_file idx0' val0 None = [] \<and>
   load_ops idx0 val0 None = []"
  by (simp add: loader_simps)

end
